theory Spec2Isabelle
  imports Complex_Main "HOL-Library.Word" "HOL-Library.Char_ord" "HOL-Library.List_Lexorder"
begin

section \<open>Image analysis (analysis.py)\<close>

text \<open>
  Scores are Python floats. A score is modelled as the real number the float denotes:
  every score the analyzer produces is the variance of a Laplacian or a distance of a
  decoded image, a finite number, and on finite numbers the comparisons of the source
  are the comparisons of the reals. Category names are the strings the source returns.
\<close>

datatype error = ValueError | OSError | OverflowError | OperationalError

definition BLUR_THRESHOLD_SHARP :: real where
  "BLUR_THRESHOLD_SHARP = 150.0"

definition BLUR_THRESHOLD_SOFT :: real where
  "BLUR_THRESHOLD_SOFT = 50.0"

definition CENTER_THRESHOLD_WELL :: real where
  "CENTER_THRESHOLD_WELL = 0.15"

definition CENTER_THRESHOLD_SOMEWHAT :: real where
  "CENTER_THRESHOLD_SOMEWHAT = 0.35"

definition categorize_blur :: "real \<Rightarrow> string" where
  "categorize_blur blur_score =
     (if blur_score \<ge> BLUR_THRESHOLD_SHARP then ''sharp''
      else if blur_score \<ge> BLUR_THRESHOLD_SOFT then ''soft''
      else ''blurry'')"

definition categorize_centering :: "real \<Rightarrow> string" where
  "categorize_centering center_score =
     (if center_score \<le> CENTER_THRESHOLD_WELL then ''well_centered''
      else if center_score \<le> CENTER_THRESHOLD_SOMEWHAT then ''somewhat_centered''
      else ''off_center'')"

text \<open>
  A bounding box is the tuple \<open>(x, y, w, h)\<close> of one row of the detector's output, an
  array of 32-bit signed integers: the area \<open>d[2] * d[3]\<close> is a 32-bit product.
\<close>

type_synonym bbox = "32 word \<times> 32 word \<times> 32 word \<times> 32 word"

definition area :: "bbox \<Rightarrow> int" where
  "area d = (case d of (x, y, w, h) \<Rightarrow> sint (w * h))"

text \<open>Python's \<open>max(detections, key=...)\<close> keeps the first of several largest boxes.\<close>

fun max_by_area :: "bbox \<Rightarrow> bbox list \<Rightarrow> bbox" where
  "max_by_area best [] = best"
| "max_by_area best (d # ds) =
     (if area d > area best then max_by_area d ds else max_by_area best ds)"

definition get_largest_detection :: "bbox list \<Rightarrow> bbox option" where
  "get_largest_detection detections =
     (case detections of [] \<Rightarrow> None | d # ds \<Rightarrow> Some (max_by_area d ds))"

text \<open>
  The floating-point operations of \<open>calculate_center_score\<close>, each the double the
  machine returns for its operands: they are parameters, since a result is the exact one
  only up to rounding.
\<close>

record float_ops =
  f_add :: "real \<Rightarrow> real \<Rightarrow> real"
  f_sub :: "real \<Rightarrow> real \<Rightarrow> real"
  f_div :: "real \<Rightarrow> real \<Rightarrow> real"
  f_square :: "real \<Rightarrow> real"
  f_sqrt :: "real \<Rightarrow> real"

definition calculate_center_score :: "float_ops \<Rightarrow> bbox \<Rightarrow> int \<Rightarrow> int \<Rightarrow> real" where
  "calculate_center_score fp bbox image_width image_height =
     (case bbox of (x, y, w, h) \<Rightarrow>
        let bbox_center_x = f_add fp (real_of_int (sint x)) (f_div fp (real_of_int (sint w)) 2);
            bbox_center_y = f_add fp (real_of_int (sint y)) (f_div fp (real_of_int (sint h)) 2);
            img_center_x = f_div fp (real_of_int image_width) 2;
            img_center_y = f_div fp (real_of_int image_height) 2;
            dx = f_div fp (f_sub fp bbox_center_x img_center_x) (real_of_int image_width);
            dy = f_div fp (f_sub fp bbox_center_y img_center_y) (real_of_int image_height);
            distance = f_sqrt fp (f_add fp (f_square fp dx) (f_square fp dy))
        in distance)"

text \<open>
  \<open>round(x, ndigits)\<close> of a Python float rounds the exact value of \<open>x\<close> to the
  nearest multiple of \<open>10 ^ (- ndigits)\<close>, a tie going to the even neighbour.
\<close>

definition round_half_even :: "real \<Rightarrow> int" where
  "round_half_even x =
     (let f = \<lfloor>x\<rfloor>; d = x - of_int f
      in if d < 1 / 2 then f
         else if d > 1 / 2 then f + 1
         else if even f then f else f + 1)"

definition py_round :: "real \<Rightarrow> nat \<Rightarrow> real" where
  "py_round x ndigits = of_int (round_half_even (x * 10 ^ ndigits)) / 10 ^ ndigits"

text \<open>
  What the external vision primitives return for one decoded image: its dimensions (the
  32-bit integers of the decoder), the variance of the Laplacian of its grayscale
  pixels, and the boxes of the two cascade detectors. \<open>cv2.imread\<close> returns \<open>None\<close> for a
  file it cannot decode.
\<close>

record image =
  img_width :: "32 word"
  img_height :: "32 word"
  laplacian_var :: real
  detect_faces :: "bbox list"
  detect_cat_faces :: "bbox list"

record analysis =
  a_width :: int
  a_height :: int
  a_blur_score :: real
  a_blur_category :: string
  a_has_person :: bool
  a_has_pet :: bool
  a_center_score :: real
  a_center_category :: string

definition analyze_image :: "float_ops \<Rightarrow> image option \<Rightarrow> error + analysis" where
  "analyze_image fp color_image =
     (case color_image of
        None \<Rightarrow> Inl ValueError
      | Some img \<Rightarrow>
          let height = sint (img_height img);
              width = sint (img_width img);
              blur_score = laplacian_var img;
              blur_category = categorize_blur blur_score;
              faces = detect_faces img;
              cats = detect_cat_faces img;
              has_person = (length faces > 0);
              has_pet = (length cats > 0);
              all_detections = faces @ cats;
              largest = get_largest_detection all_detections;
              center_score =
                (case largest of
                   Some b \<Rightarrow> calculate_center_score fp b width height
                 | None \<Rightarrow> 0.0);
              center_category = categorize_centering center_score
          in Inr \<lparr>a_width = width,
                  a_height = height,
                  a_blur_score = py_round blur_score 2,
                  a_blur_category = blur_category,
                  a_has_person = has_person,
                  a_has_pet = has_pet,
                  a_center_score = py_round center_score 4,
                  a_center_category = center_category\<rparr>)"

section \<open>The analysis store (db.py)\<close>

text \<open>
  The dictionary passed to \<open>upsert_analysis\<close>: the columns of \<open>photo_analysis\<close> but the
  key \<open>id\<close>. A row of the table is that dictionary with its \<open>id\<close>, which is also what
  \<open>dict(row)\<close> of a \<open>SELECT *\<close> returns. The field \<open>root\<close> is named \<open>root_path\<close> here.
\<close>

record analysis_record =
  root_path :: string
  path :: string
  size_bytes :: int
  mtime_ns :: int
  width :: int
  height :: int
  blur_score :: real
  blur_category :: string
  has_person :: int
  has_pet :: int
  center_score :: real
  center_category :: string
  analyzed_at :: string

record row = analysis_record +
  row_id :: int

text \<open>
  The table is the list of its rows in the order in which a query visits them, so that
  \<open>fetchone\<close> is the first row a query selects. \<open>id INTEGER PRIMARY KEY\<close> makes the
  engine keep the ids of a table distinct.
\<close>

type_synonym connection = "row list"

definition pk_distinct :: "connection \<Rightarrow> bool" where
  "pk_distinct conn = distinct (map row_id conn)"


text \<open>
  A Python integer is bound to a statement as an SQLite \<open>INTEGER\<close>, a signed 64-bit
  number; binding one outside that range raises \<open>OverflowError\<close> and the statement is not
  executed.
\<close>

definition int64_ok :: "int \<Rightarrow> bool" where
  "int64_ok v = (- (2 ^ 63) \<le> v \<and> v < 2 ^ 63)"

definition get_cached_analysis ::
  "connection \<Rightarrow> string \<Rightarrow> string \<Rightarrow> int \<Rightarrow> int \<Rightarrow> error + row option" where
  "get_cached_analysis conn root_dir p sz mt =
     (if int64_ok sz \<and> int64_ok mt
      then Inr (find (\<lambda>r. root_path r = root_dir \<and> path r = p \<and>
                          size_bytes r = sz \<and> mtime_ns r = mt) conn)
      else Inl OverflowError)"

text \<open>
  An \<open>INSERT\<close> that names no \<open>id\<close> gets 1 in an empty table and otherwise one more than
  the largest id of the table.
\<close>

definition next_rowid :: "connection \<Rightarrow> int" where
  "next_rowid conn =
     (case conn of [] \<Rightarrow> 1 | r # rs \<Rightarrow> fold max (map row_id rs) (row_id r) + 1)"

text \<open>The \<open>SET\<close> of the \<open>UPDATE\<close> statement, and the row of the \<open>INSERT\<close> statement.\<close>

definition update_row :: "analysis_record \<Rightarrow> row \<Rightarrow> row" where
  "update_row data r =
     r\<lparr>size_bytes := size_bytes data,
       mtime_ns := mtime_ns data,
       width := width data,
       height := height data,
       blur_score := blur_score data,
       blur_category := blur_category data,
       has_person := has_person data,
       has_pet := has_pet data,
       center_score := center_score data,
       center_category := center_category data,
       analyzed_at := analyzed_at data\<rparr>"

definition insert_row :: "analysis_record \<Rightarrow> int \<Rightarrow> row" where
  "insert_row data n =
     \<lparr>root_path = root_path data,
      path = path data,
      size_bytes = size_bytes data,
      mtime_ns = mtime_ns data,
      width = width data,
      height = height data,
      blur_score = blur_score data,
      blur_category = blur_category data,
      has_person = has_person data,
      has_pet = has_pet data,
      center_score = center_score data,
      center_category = center_category data,
      analyzed_at = analyzed_at data,
      row_id = n\<rparr>"

text \<open>The integers that the \<open>UPDATE\<close> and the \<open>INSERT\<close> statement bind.\<close>

definition bindable :: "analysis_record \<Rightarrow> bool" where
  "bindable data =
     (int64_ok (size_bytes data) \<and> int64_ok (mtime_ns data) \<and>
      int64_ok (width data) \<and> int64_ok (height data) \<and>
      int64_ok (has_person data) \<and> int64_ok (has_pet data))"

text \<open>
  \<open>upsert_analysis\<close> returns nothing; the result here is the table it leaves, or the
  exception it raises, after which the table is as before.
\<close>

definition upsert_analysis :: "connection \<Rightarrow> analysis_record \<Rightarrow> error + connection" where
  "upsert_analysis conn data =
     (case find (\<lambda>r. root_path r = root_path data \<and> path r = path data) conn of
        Some existing \<Rightarrow>
          if bindable data
          then Inr (map (\<lambda>r. if row_id r = row_id existing then update_row data r else r) conn)
          else Inl OverflowError
      | None \<Rightarrow>
          if bindable data
          then Inr (conn @ [insert_row data (next_rowid conn)])
          else Inl OverflowError)"


text \<open>
  \<open>delete_missing_files\<close> returns the number of paths it found missing; the table after
  the \<open>DELETE\<close> is the first component of the result here. The \<open>DELETE\<close> binds the root
  and one parameter for each missing path; the engine refuses a statement with more
  parameters than its limit \<open>max_variables\<close> (\<open>OperationalError\<close>), and nothing is
  deleted then.
\<close>

definition delete_missing_files ::
  "connection \<Rightarrow> nat \<Rightarrow> string \<Rightarrow> string set \<Rightarrow> error + connection \<times> nat" where
  "delete_missing_files conn max_variables root_dir existing_paths =
     (let db_paths = set (map path (filter (\<lambda>r. root_path r = root_dir) conn));
          paths_to_delete = db_paths - existing_paths
      in if paths_to_delete \<noteq> {}
         then (if 1 + card paths_to_delete > max_variables
               then Inl OperationalError
               else Inr (filter (\<lambda>r. \<not> (root_path r = root_dir \<and>
                                         path r \<in> paths_to_delete)) conn,
                         card paths_to_delete))
         else Inr (conn, card paths_to_delete))"

section \<open>The pipeline (analyze_photos.py)\<close>

text \<open>
  What the machine answers during one run. By absolute path: \<open>get_file_stats\<close>
  (\<open>os.stat\<close> raises \<open>OSError\<close>), the image \<open>cv2.imread\<close> decodes, and the time
  \<open>datetime.now\<close> reads when the record of that file is assembled. Besides, its
  floating-point operations and the parameter limit of its database engine.
\<close>

record machine =
  get_file_stats :: "string \<Rightarrow> error + int \<times> int"
  cv2_imread :: "string \<Rightarrow> image option"
  utc_now :: "string \<Rightarrow> string"
  float_arith :: float_ops
  sqlite_max_variables :: nat

record stats =
  total :: nat
  analyzed :: nat
  cached :: nat
  errors :: nat
  deleted :: nat

definition make_record ::
  "string \<Rightarrow> string \<Rightarrow> int \<Rightarrow> int \<Rightarrow> analysis \<Rightarrow> string \<Rightarrow> analysis_record" where
  "make_record root_dir rel_path sz mt a now =
     \<lparr>root_path = root_dir,
      path = rel_path,
      size_bytes = sz,
      mtime_ns = mt,
      width = a_width a,
      height = a_height a,
      blur_score = a_blur_score a,
      blur_category = a_blur_category a,
      has_person = (if a_has_person a then 1 else 0),
      has_pet = (if a_has_pet a then 1 else 0),
      center_score = a_center_score a,
      center_category = a_center_category a,
      analyzed_at = now\<rparr>"

text \<open>
  The body of the \<open>try\<close> of the loop of \<open>process_images\<close>: it raises (\<open>Inl\<close>), or
  continues on a cache hit, or stores the record of a fresh analysis.
\<close>

datatype outcome = Cached | Analyzed connection

definition try_entry ::
  "machine \<Rightarrow> connection \<Rightarrow> string \<Rightarrow> bool \<Rightarrow> string \<Rightarrow> string \<Rightarrow> error + outcome" where
  "try_entry m conn root_dir force abs_path rel_path =
     (case get_file_stats m abs_path of
        Inl e \<Rightarrow> Inl e
      | Inr (sz, mt) \<Rightarrow>
          let analyze =
                (case analyze_image (float_arith m) (cv2_imread m abs_path) of
                   Inl e \<Rightarrow> Inl e
                 | Inr a \<Rightarrow>
                     (case upsert_analysis conn
                             (make_record root_dir rel_path sz mt a (utc_now m abs_path)) of
                        Inl e \<Rightarrow> Inl e
                      | Inr conn' \<Rightarrow> Inr (Analyzed conn')))
          in if \<not> force
             then (case get_cached_analysis conn root_dir rel_path sz mt of
                     Inl e \<Rightarrow> Inl e
                   | Inr (Some cached_row) \<Rightarrow> Inr Cached
                   | Inr None \<Rightarrow> analyze)
             else analyze)"

text \<open>One iteration: the path is recorded as seen, then the \<open>try\<close> and its handler.\<close>

definition process_entry ::
  "machine \<Rightarrow> string \<Rightarrow> bool \<Rightarrow> stats \<times> connection \<times> string set \<Rightarrow> string \<times> string
     \<Rightarrow> stats \<times> connection \<times> string set" where
  "process_entry m root_dir force st entry =
     (case st of (st_stats, conn, existing_paths) \<Rightarrow>
      case entry of (abs_path, rel_path) \<Rightarrow>
        let existing_paths = insert rel_path existing_paths
        in (case try_entry m conn root_dir force abs_path rel_path of
              Inr Cached \<Rightarrow> (st_stats\<lparr>cached := cached st_stats + 1\<rparr>, conn, existing_paths)
            | Inr (Analyzed conn') \<Rightarrow>
                (st_stats\<lparr>analyzed := analyzed st_stats + 1\<rparr>, conn', existing_paths)
            | Inl e \<Rightarrow> (st_stats\<lparr>errors := errors st_stats + 1\<rparr>, conn, existing_paths)))"

definition process_loop ::
  "machine \<Rightarrow> connection \<Rightarrow> string \<Rightarrow> (string \<times> string) list \<Rightarrow> bool
     \<Rightarrow> stats \<times> connection \<times> string set" where
  "process_loop m conn root_dir images force =
     foldl (process_entry m root_dir force)
       (\<lparr>total = length images, analyzed = 0, cached = 0, errors = 0, deleted = 0\<rparr>, conn, {})
       images"

text \<open>
  \<open>process_images\<close>, given the rows of the database at \<open>db_path\<close>, the resolved root and
  the pairs \<open>find_images\<close> yields. It returns the statistics, or raises what
  \<open>delete_missing_files\<close> raises; the second component is the table it leaves either way.
\<close>

definition process_images ::
  "machine \<Rightarrow> connection \<Rightarrow> string \<Rightarrow> (string \<times> string) list \<Rightarrow> bool
     \<Rightarrow> (error + stats) \<times> connection" where
  "process_images m conn root_dir images force =
     (if length images = 0
      then (Inr \<lparr>total = 0, analyzed = 0, cached = 0, errors = 0, deleted = 0\<rparr>, conn)
      else (case process_loop m conn root_dir images force of
              (st_stats, conn', existing_paths) \<Rightarrow>
                (case delete_missing_files conn' (sqlite_max_variables m) root_dir
                        existing_paths of
                   Inl e \<Rightarrow> (Inl e, conn')
                 | Inr (conn'', n) \<Rightarrow> (Inr (st_stats\<lparr>deleted := n\<rparr>), conn''))))"


section \<open>Notions of the statements\<close>

text \<open>The rows stored for a root and a relative path, and the paths stored for a root.\<close>

definition rows_for :: "connection \<Rightarrow> string \<Rightarrow> string \<Rightarrow> row list" where
  "rows_for conn root_dir p = filter (\<lambda>r. root_path r = root_dir \<and> path r = p) conn"

definition paths_of :: "connection \<Rightarrow> string \<Rightarrow> string set" where
  "paths_of conn root_dir = set (map path (filter (\<lambda>r. root_path r = root_dir) conn))"

text \<open>The table after a call of \<open>upsert_analysis\<close>, whether it returned or raised.\<close>

definition upsert_store :: "connection \<Rightarrow> analysis_record \<Rightarrow> connection" where
  "upsert_store conn data = (case upsert_analysis conn data of Inr conn' \<Rightarrow> conn' | Inl e \<Rightarrow> conn)"

text \<open>
  The reconciliation fits the engine when no stored path of the root is missing from the
  seen paths, or the \<open>DELETE\<close> for the missing ones has no more parameters than the limit.
\<close>

definition reconcile_fits :: "nat \<Rightarrow> connection \<Rightarrow> string \<Rightarrow> string set \<Rightarrow> bool" where
  "reconcile_fits max_variables conn root_dir seen =
     (paths_of conn root_dir - seen = {} \<or>
      1 + card (paths_of conn root_dir - seen) \<le> max_variables)"

text \<open>
  A scanned entry is valid when its file can be read and stored: \<open>os.stat\<close> succeeds, size
  and modification time fit a 64-bit integer, and the image decodes. It is a cache hit
  in a store that holds a record of its current fingerprint. The record of a valid entry
  is the one \<open>process_images\<close> assembles for it.
\<close>

definition valid_entry :: "machine \<Rightarrow> string \<times> string \<Rightarrow> bool" where
  "valid_entry m entry =
     (case get_file_stats m (fst entry) of
        Inl e \<Rightarrow> False
      | Inr (sz, mt) \<Rightarrow> int64_ok sz \<and> int64_ok mt \<and> cv2_imread m (fst entry) \<noteq> None)"

definition cache_hit :: "machine \<Rightarrow> connection \<Rightarrow> string \<Rightarrow> string \<times> string \<Rightarrow> bool" where
  "cache_hit m conn root_dir entry =
     (case get_file_stats m (fst entry) of
        Inl e \<Rightarrow> False
      | Inr (sz, mt) \<Rightarrow>
          (case get_cached_analysis conn root_dir (snd entry) sz mt of
             Inr (Some r) \<Rightarrow> True
           | Inr None \<Rightarrow> False
           | Inl e \<Rightarrow> False))"

definition entry_record ::
  "machine \<Rightarrow> string \<Rightarrow> string \<times> string \<Rightarrow> analysis_record option" where
  "entry_record m root_dir entry =
     (case get_file_stats m (fst entry) of
        Inl e \<Rightarrow> None
      | Inr (sz, mt) \<Rightarrow>
          if int64_ok sz \<and> int64_ok mt
          then (case analyze_image (float_arith m) (cv2_imread m (fst entry)) of
                  Inl e \<Rightarrow> None
                | Inr a \<Rightarrow>
                    Some (make_record root_dir (snd entry) sz mt a (utc_now m (fst entry))))
          else None)"

text \<open>A row holds a record when all its fields but the id are those of the record.\<close>

definition holds_record :: "row \<Rightarrow> analysis_record \<Rightarrow> bool" where
  "holds_record r d =
     (root_path r = root_path d \<and> path r = path d \<and>
      size_bytes r = size_bytes d \<and> mtime_ns r = mtime_ns d \<and>
      width r = width d \<and> height r = height d \<and>
      blur_score r = blur_score d \<and> blur_category r = blur_category d \<and>
      has_person r = has_person d \<and> has_pet r = has_pet d \<and>
      center_score r = center_score d \<and> center_category r = center_category d \<and>
      analyzed_at r = analyzed_at d)"

section \<open>Concrete inputs\<close>

text \<open>A small photo directory and store, on which the theorems below are evaluated.\<close>

definition soft_image :: image where
  "soft_image =
     \<lparr>img_width = 640, img_height = 480, laplacian_var = 149.997,
      detect_faces = [], detect_cat_faces = []\<rparr>"

definition exact_ops :: float_ops where
  "exact_ops =
     \<lparr>f_add = (\<lambda>a b. a + b), f_sub = (\<lambda>a b. a - b), f_div = (\<lambda>a b. a / b),
      f_square = (\<lambda>a. a * a), f_sqrt = sqrt\<rparr>"

definition row_a :: row where
  "row_a =
     \<lparr>root_path = ''/photos'', path = ''a.jpg'', size_bytes = 10, mtime_ns = 20,
      width = 640, height = 480, blur_score = 150.0, blur_category = ''soft'',
      has_person = 0, has_pet = 0, center_score = 0.0, center_category = ''well_centered'',
      analyzed_at = ''2024-01-01T00:00:00+00:00'', row_id = 1\<rparr>"



definition row_bad :: row where
  "row_bad = row_a\<lparr>path := ''bad.jpg'', size_bytes := 5, mtime_ns := 7, row_id := 3\<rparr>"


text \<open>
  A directory \<open>/photos\<close> with the decodable files \<open>a.jpg\<close> and \<open>b.jpg\<close> and the
  undecodable file \<open>bad.jpg\<close>.
\<close>

definition photos_fs :: machine where
  "photos_fs =
     \<lparr>get_file_stats =
        (\<lambda>p. if p = ''/photos/a.jpg'' then Inr (10, 20)
             else if p = ''/photos/b.jpg'' then Inr (30, 40)
             else if p = ''/photos/bad.jpg'' then Inr (5, 6)
             else Inl OSError),
      cv2_imread =
        (\<lambda>p. if p = ''/photos/a.jpg'' \<or> p = ''/photos/b.jpg'' then Some soft_image else None),
      utc_now = (\<lambda>p. ''2024-01-03T00:00:00+00:00''),
      float_arith = exact_ops,
      sqlite_max_variables = 999\<rparr>"


definition entry_a :: "string \<times> string" where
  "entry_a = (''/photos/a.jpg'', ''a.jpg'')"

definition entry_b :: "string \<times> string" where
  "entry_b = (''/photos/b.jpg'', ''b.jpg'')"

definition entry_bad :: "string \<times> string" where
  "entry_bad = (''/photos/bad.jpg'', ''bad.jpg'')"

section \<open>Properties of the image analysis\<close>

text \<open>
  C6. The blur categorization maps a score to "sharp" exactly when it is at least 150.0,
  to "soft" exactly when it is at least 50.0 and below 150.0, and to "blurry" exactly
  when it is below 50.0; 150.0 is sharp, 149.99 is soft, 50.0 is soft and 49.99 is blurry.
\<close>

theorem categorize_blur_bands:
  "(categorize_blur s = ''sharp'' \<longleftrightarrow> s \<ge> 150.0) \<and>
   (categorize_blur s = ''soft'' \<longleftrightarrow> 50.0 \<le> s \<and> s < 150.0) \<and>
   (categorize_blur s = ''blurry'' \<longleftrightarrow> s < 50.0) \<and>
   categorize_blur 150.0 = ''sharp'' \<and>
   categorize_blur 149.99 = ''soft'' \<and>
   categorize_blur 50.0 = ''soft'' \<and>
   categorize_blur 49.99 = ''blurry''"
  by (simp add: categorize_blur_def BLUR_THRESHOLD_SHARP_def BLUR_THRESHOLD_SOFT_def)

lemma py_round_zero: "py_round 0 n = 0"
  by (simp add: py_round_def round_half_even_def)

text \<open>
  C7. An image in which neither detector finds a box is analyzed with a center score of
  0.0 and the center category "well_centered".
\<close>

theorem no_detection_well_centered:
  assumes "detect_faces img = []" and "detect_cat_faces img = []"
  shows "\<exists>a. analyze_image fp (Some img) = Inr a \<and>
             a_center_score a = 0.0 \<and> a_center_category a = ''well_centered''"
  using assms
  by (simp add: analyze_image_def get_largest_detection_def py_round_zero
      categorize_centering_def CENTER_THRESHOLD_WELL_def Let_def)

theorem no_detection_well_centered_witness:
  "detect_faces soft_image = [] \<and> detect_cat_faces soft_image = [] \<and>
   (\<exists>a. analyze_image exact_ops (Some soft_image) = Inr a \<and>
        a_center_score a = 0.0 \<and> a_center_category a = ''well_centered'')"
proof -
  have f: "detect_faces soft_image = []" and c: "detect_cat_faces soft_image = []"
    by (simp_all add: soft_image_def)
  show ?thesis using f c no_detection_well_centered [OF f c] by simp
qed





section \<open>Properties of the store\<close>

lemma get_cached_in_range:
  "int64_ok sz \<Longrightarrow> int64_ok mt \<Longrightarrow>
   get_cached_analysis conn root_dir p sz mt =
     Inr (find (\<lambda>r. root_path r = root_dir \<and> path r = p \<and>
                     size_bytes r = sz \<and> mtime_ns r = mt) conn)"
  by (simp add: get_cached_analysis_def)

lemma get_cached_out_of_range:
  "\<not> (int64_ok sz \<and> int64_ok mt) \<Longrightarrow>
   get_cached_analysis conn root_dir p sz mt = Inl OverflowError"
  by (simp add: get_cached_analysis_def)







lemma update_row_key [simp]:
  "root_path (update_row data r) = root_path r" "path (update_row data r) = path r"
  "row_id (update_row data r) = row_id r"
  by (simp_all add: update_row_def)

lemma update_row_fp [simp]:
  "size_bytes (update_row data r) = size_bytes data" "mtime_ns (update_row data r) = mtime_ns data"
  by (simp_all add: update_row_def)

lemma insert_row_sel [simp]:
  "root_path (insert_row data n) = root_path data" "path (insert_row data n) = path data"
  "row_id (insert_row data n) = n"
  "size_bytes (insert_row data n) = size_bytes data" "mtime_ns (insert_row data n) = mtime_ns data"
  by (simp_all add: insert_row_def)

lemma upsert_analysis_bindable:
  assumes "bindable data"
  shows "upsert_analysis conn data = Inr (upsert_store conn data)"
    and "upsert_store conn data =
           (case find (\<lambda>r. root_path r = root_path data \<and> path r = path data) conn of
              Some existing \<Rightarrow>
                map (\<lambda>r. if row_id r = row_id existing then update_row data r else r) conn
            | None \<Rightarrow> conn @ [insert_row data (next_rowid conn)])"
  using assms by (simp_all add: upsert_store_def upsert_analysis_def split: option.splits)

lemma upsert_analysis_unbindable:
  assumes "\<not> bindable data"
  shows "upsert_analysis conn data = Inl OverflowError" and "upsert_store conn data = conn"
  using assms by (simp_all add: upsert_store_def upsert_analysis_def split: option.splits)

lemma bindable_fingerprint: "bindable data \<Longrightarrow> int64_ok (size_bytes data) \<and> int64_ok (mtime_ns data)"
  by (simp add: bindable_def)

lemma find_update_first:
  assumes "find K conn = Some e" "\<And>r. K (upd r) = K r" "\<And>r. P r \<Longrightarrow> K r" "P (upd e)"
  shows "find P (map (\<lambda>r. if row_id r = row_id e then upd r else r) conn) = Some (upd e)"
  using assms(1)
proof (induction conn)
  case Nil
  then show ?case by simp
next
  case (Cons r rs)
  show ?case
  proof (cases "K r")
    case True
    then have "e = r" using Cons.prems by simp
    then show ?thesis using assms(4) by simp
  next
    case False
    then have "\<not> P r" "\<not> P (upd r)" using assms(2,3) by blast+
    moreover have "find K rs = Some e" using Cons.prems False by simp
    ultimately show ?thesis using Cons.IH by simp
  qed
qed

lemma find_append_last:
  assumes "find K conn = None" "\<And>r. P r \<Longrightarrow> K r" "P x"
  shows "find P (conn @ [x]) = Some x"
  using assms(1)
proof (induction conn)
  case Nil
  then show ?case using assms(3) by simp
next
  case (Cons r rs)
  then have "\<not> K r" "find K rs = None" by (auto split: if_splits)
  then show ?case using Cons.IH assms(2) by auto
qed

lemma upsert_lookup:
  assumes b: "bindable data"
  shows "get_cached_analysis (upsert_store conn data) (root_path data) (path data)
      (size_bytes data) (mtime_ns data) =
     Inr (case find (\<lambda>r. root_path r = root_path data \<and> path r = path data) conn of
            Some existing \<Rightarrow> Some (update_row data existing)
          | None \<Rightarrow> Some (insert_row data (next_rowid conn)))"
proof (cases "find (\<lambda>r. root_path r = root_path data \<and> path r = path data) conn")
  case None
  have "find (\<lambda>r. root_path r = root_path data \<and> path r = path data \<and>
                 size_bytes r = size_bytes data \<and> mtime_ns r = mtime_ns data)
          (conn @ [insert_row data (next_rowid conn)]) = Some (insert_row data (next_rowid conn))"
    by (rule find_append_last[OF None]) simp_all
  then show ?thesis using None bindable_fingerprint[OF b]
    by (simp add: get_cached_in_range upsert_analysis_bindable(2)[OF b])
next
  case (Some e)
  then have k: "root_path e = root_path data \<and> path e = path data"
    by (auto simp: find_Some_iff)
  have "find (\<lambda>r. root_path r = root_path data \<and> path r = path data \<and>
                 size_bytes r = size_bytes data \<and> mtime_ns r = mtime_ns data)
          (map (\<lambda>r. if row_id r = row_id e then update_row data r else r) conn)
        = Some (update_row data e)"
    by (rule find_update_first[OF Some]) (simp_all add: k)
  then show ?thesis using Some bindable_fingerprint[OF b]
    by (simp add: get_cached_in_range upsert_analysis_bindable(2)[OF b])
qed

lemma upsert_holds_record:
  assumes b: "bindable d"
  shows "\<exists>r. get_cached_analysis (upsert_store conn d) (root_path d) (path d)
          (size_bytes d) (mtime_ns d) = Inr (Some r) \<and> holds_record r d"
proof (cases "find (\<lambda>r. root_path r = root_path d \<and> path r = path d) conn")
  case None
  then show ?thesis by (simp add: upsert_lookup[OF b] insert_row_def holds_record_def)
next
  case (Some e)
  then have "root_path e = root_path d \<and> path e = path d"
    by (auto simp: find_Some_iff)
  then show ?thesis using Some
    by (simp add: upsert_lookup[OF b] update_row_def holds_record_def)
qed




lemma map_key_upsert_existing:
  "map (\<lambda>r. (root_path r, path r))
     (map (\<lambda>r. if row_id r = n then update_row data r else r) conn) =
   map (\<lambda>r. (root_path r, path r)) conn"
  by (induction conn) simp_all

lemma map_row_id_upsert_existing:
  "map row_id (map (\<lambda>r. if row_id r = n then update_row data r else r) conn) = map row_id conn"
  by (induction conn) simp_all



lemma pk_distinct_same:
  assumes "pk_distinct conn" and "r \<in> set conn" and "r' \<in> set conn" and "row_id r = row_id r'"
  shows "r = r'"
proof -
  have "inj_on row_id (set conn)"
    using assms(1) unfolding pk_distinct_def by (rule distinct_map[THEN iffD1, THEN conjunct2])
  then show ?thesis using assms(2-4) by (auto dest: inj_onD)
qed






section \<open>Frame properties of the store operations\<close>

lemma get_cached_via_rows_for:
  "get_cached_analysis conn root_dir p sz mt =
     (if int64_ok sz \<and> int64_ok mt
      then Inr (find (\<lambda>r. size_bytes r = sz \<and> mtime_ns r = mt) (rows_for conn root_dir p))
      else Inl OverflowError)"
proof -
  have "find (\<lambda>r. root_path r = root_dir \<and> path r = p \<and> size_bytes r = sz \<and> mtime_ns r = mt) conn =
        find (\<lambda>r. size_bytes r = sz \<and> mtime_ns r = mt) (rows_for conn root_dir p)"
    unfolding rows_for_def by (induction conn) auto
  then show ?thesis by (simp add: get_cached_analysis_def)
qed

lemma get_cached_rows_for_cong:
  assumes "rows_for c1 root_dir p = rows_for c2 root_dir p"
  shows "get_cached_analysis c1 root_dir p sz mt = get_cached_analysis c2 root_dir p sz mt"
  using assms by (simp only: get_cached_via_rows_for)

lemma fold_max_lower: "(a::int) \<le> fold max xs a"
proof (induction xs arbitrary: a)
  case Nil
  show ?case by simp
next
  case (Cons y ys)
  have "a \<le> max y a" by simp
  also have "\<dots> \<le> fold max ys (max y a)" by (rule Cons.IH)
  finally show ?case by simp
qed

lemma fold_max_upper: "x \<in> set xs \<Longrightarrow> (x::int) \<le> fold max xs a"
proof (induction xs arbitrary: a)
  case Nil
  then show ?case by simp
next
  case (Cons y ys)
  show ?case
  proof (cases "x = y")
    case True
    have "x \<le> max y a" using True by simp
    also have "\<dots> \<le> fold max ys (max y a)" by (rule fold_max_lower)
    finally show ?thesis by simp
  next
    case False
    then have "x \<in> set ys" using Cons.prems by simp
    then show ?thesis using Cons.IH by simp
  qed
qed

lemma next_rowid_fresh:
  assumes "r \<in> set conn"
  shows "row_id r < next_rowid conn"
proof (cases conn)
  case Nil
  then show ?thesis using assms by simp
next
  case (Cons r0 rs)
  show ?thesis
  proof (cases "r = r0")
    case True
    then show ?thesis using fold_max_lower[of "row_id r0" "map row_id rs"]
      by (simp add: next_rowid_def Cons)
  next
    case False
    then have "row_id r \<in> set (map row_id rs)" using assms Cons by simp
    then show ?thesis using fold_max_upper[of "row_id r" "map row_id rs" "row_id r0"]
      by (simp add: next_rowid_def Cons)
  qed
qed

lemma pk_distinct_upsert:
  assumes "pk_distinct conn"
  shows "pk_distinct (upsert_store conn data)"
proof (cases "bindable data")
  case False
  then show ?thesis using assms by (simp add: upsert_analysis_unbindable(2))
next
  case b: True
  note u = upsert_analysis_bindable(2)[OF b, of conn]
  show ?thesis
  proof (cases "find (\<lambda>r. root_path r = root_path data \<and> path r = path data) conn")
    case None
    have "next_rowid conn \<notin> set (map row_id conn)"
      using next_rowid_fresh[of _ conn] by fastforce
    then show ?thesis using assms None
      by (simp add: pk_distinct_def u)
  next
    case (Some e)
    have "map row_id (upsert_store conn data) = map row_id conn"
      using Some by (simp only: u option.case map_row_id_upsert_existing)
    then show ?thesis using assms by (simp only: pk_distinct_def)
  qed
qed

lemma filter_map_frame:
  assumes "\<And>r. r \<in> set xs \<Longrightarrow> P (f r) = P r" and "\<And>r. r \<in> set xs \<Longrightarrow> P r \<Longrightarrow> f r = r"
  shows "filter P (map f xs) = filter P xs"
  using assms by (induction xs) auto

lemma upsert_rows_for_frame:
  assumes "pk_distinct conn" and "(root_dir, p) \<noteq> (root_path data, path data)"
  shows "rows_for (upsert_store conn data) root_dir p = rows_for conn root_dir p"
proof (cases "bindable data")
  case False
  then show ?thesis by (simp add: upsert_analysis_unbindable(2))
next
  case b: True
  note u = upsert_analysis_bindable(2)[OF b, of conn]
  show ?thesis
  proof (cases "find (\<lambda>r. root_path r = root_path data \<and> path r = path data) conn")
    case None
    then show ?thesis using assms(2)
      by (auto simp: u rows_for_def)
  next
    case (Some e)
    then have e: "e \<in> set conn" "root_path e = root_path data" "path e = path data"
      by (auto simp: find_Some_iff)
    have "filter (\<lambda>r. root_path r = root_dir \<and> path r = p)
            (map (\<lambda>r. if row_id r = row_id e then update_row data r else r) conn) =
          filter (\<lambda>r. root_path r = root_dir \<and> path r = p) conn"
    proof (rule filter_map_frame)
      fix r assume "r \<in> set conn"
      show "(root_path (if row_id r = row_id e then update_row data r else r) = root_dir \<and>
             path (if row_id r = row_id e then update_row data r else r) = p) =
            (root_path r = root_dir \<and> path r = p)"
        by simp
    next
      fix r assume r: "r \<in> set conn" "root_path r = root_dir \<and> path r = p"
      then have "r \<noteq> e" using e assms(2) by auto
      then have "row_id r \<noteq> row_id e"
        using pk_distinct_same[OF assms(1) r(1) e(1)] by blast
      then show "(if row_id r = row_id e then update_row data r else r) = r" by simp
    qed
    then show ?thesis using Some by (simp only: u option.case rows_for_def)
  qed
qed

lemma paths_of_upsert:
  assumes b: "bindable data"
  shows "paths_of (upsert_store conn data) root_dir =
     paths_of conn root_dir \<union> (if root_path data = root_dir then {path data} else {})"
proof (cases "find (\<lambda>r. root_path r = root_path data \<and> path r = path data) conn")
  case None
  then show ?thesis by (auto simp: upsert_analysis_bindable(2)[OF b] paths_of_def)
next
  case (Some e)
  then have e: "e \<in> set conn" "root_path e = root_path data" "path e = path data"
    by (auto simp: find_Some_iff)
  have m: "map (\<lambda>r. (root_path r, path r)) (upsert_store conn data) =
        map (\<lambda>r. (root_path r, path r)) conn"
    using Some by (simp only: upsert_analysis_bindable(2)[OF b] option.case map_key_upsert_existing)
  have k: "paths_of c root_dir = snd ` (set (map (\<lambda>r. (root_path r, path r)) c) \<inter> {k. fst k = root_dir})"
    for c :: connection
    by (force simp: paths_of_def)
  have "paths_of (upsert_store conn data) root_dir = paths_of conn root_dir"
    unfolding k m ..
  moreover have "root_path data = root_dir \<Longrightarrow> path data \<in> paths_of conn root_dir"
    using e by (force simp: paths_of_def)
  ultimately show ?thesis by auto
qed

lemma delete_missing_files_alt:
  "delete_missing_files conn max_variables root_dir existing_paths =
     (if paths_of conn root_dir - existing_paths \<noteq> {}
      then (if 1 + card (paths_of conn root_dir - existing_paths) > max_variables
            then Inl OperationalError
            else Inr (filter (\<lambda>r. \<not> (root_path r = root_dir \<and>
                        path r \<in> paths_of conn root_dir - existing_paths)) conn,
                      card (paths_of conn root_dir - existing_paths)))
      else Inr (conn, card (paths_of conn root_dir - existing_paths)))"
  unfolding delete_missing_files_def paths_of_def Let_def ..

lemma filter_missing:
  "filter (\<lambda>r. \<not> (root_path r = root_dir \<and>
             path r \<in> paths_of conn root_dir - existing_paths)) conn =
   filter (\<lambda>r. \<not> (root_path r = root_dir \<and> path r \<notin> existing_paths)) conn"
  by (rule filter_cong) (auto simp: paths_of_def)

lemma filter_none_missing:
  assumes "paths_of conn root_dir - existing_paths = {}"
  shows "filter (\<lambda>r. \<not> (root_path r = root_dir \<and> path r \<notin> existing_paths)) conn = conn"
  by (rule filter_True) (use assms in \<open>auto simp: paths_of_def\<close>)

lemma delete_missing_files_fits:
  assumes "reconcile_fits max_variables conn root_dir existing_paths"
  shows "delete_missing_files conn max_variables root_dir existing_paths =
           Inr (filter (\<lambda>r. \<not> (root_path r = root_dir \<and> path r \<notin> existing_paths)) conn,
                card (paths_of conn root_dir - existing_paths))"
proof (cases "paths_of conn root_dir - existing_paths = {}")
  case True
  show ?thesis
    unfolding delete_missing_files_alt filter_none_missing[OF True] using True by simp
next
  case False
  then have "\<not> 1 + card (paths_of conn root_dir - existing_paths) > max_variables"
    using assms by (simp add: reconcile_fits_def)
  then show ?thesis
    unfolding delete_missing_files_alt filter_missing using False by simp
qed

lemma delete_missing_files_exceeds:
  assumes "\<not> reconcile_fits max_variables conn root_dir existing_paths"
  shows "delete_missing_files conn max_variables root_dir existing_paths = Inl OperationalError"
  using assms unfolding delete_missing_files_alt reconcile_fits_def by auto

lemma rows_for_member:
  "r \<in> set (rows_for conn root_dir p) \<longleftrightarrow> r \<in> set conn \<and> root_path r = root_dir \<and> path r = p"
  by (auto simp: rows_for_def)

lemma rows_for_filter_seen:
  assumes "p \<in> seen"
  shows "rows_for (filter (\<lambda>r. \<not> (root_path r = root_dir \<and> path r \<notin> seen)) conn) root_dir p =
         rows_for conn root_dir p"
  unfolding rows_for_def filter_filter
  by (rule filter_cong) (use assms in auto)


lemma paths_of_filter_seen:
  "paths_of (filter (\<lambda>r. \<not> (root_path r = root_dir \<and> path r \<notin> seen)) conn) root_dir =
     paths_of conn root_dir \<inter> seen"
  by (auto simp: paths_of_def)

lemma filter_seen_idem:
  "filter (\<lambda>r. \<not> (root_path r = root_dir \<and> path r \<notin> seen))
     (filter (\<lambda>r. \<not> (root_path r = root_dir \<and> path r \<notin> seen)) conn) =
   filter (\<lambda>r. \<not> (root_path r = root_dir \<and> path r \<notin> seen)) conn"
  unfolding filter_filter by (rule filter_cong) auto

section \<open>Properties of one iteration and of the loop\<close>

lemma int64_ok_sint32: "int64_ok (sint (w :: 32 word))"
proof -
  have "- (2 ^ 31) \<le> sint w" using sint_ge[of w] by simp
  moreover have "sint w < 2 ^ 31" using sint_lt[of w] by simp
  ultimately show ?thesis by (simp add: int64_ok_def)
qed

lemma analyze_image_Inr_iff: "(\<exists>a. analyze_image fp x = Inr a) \<longleftrightarrow> x \<noteq> None"
  by (cases x) (simp_all add: analyze_image_def Let_def)

lemma analyze_image_dims:
  assumes "analyze_image fp x = Inr a"
  shows "int64_ok (a_width a)" and "int64_ok (a_height a)"
  using assms by (cases x; auto simp: analyze_image_def Let_def int64_ok_sint32)+

lemma bindable_make_record:
  assumes "int64_ok sz" and "int64_ok mt" and "analyze_image fp x = Inr a"
  shows "bindable (make_record root_dir rel sz mt a now)"
  using assms(1,2) analyze_image_dims[OF assms(3)]
  by (simp add: bindable_def make_record_def int64_ok_def)

lemma entry_record_valid: "(entry_record m root_dir e \<noteq> None) = valid_entry m e"
proof (cases "get_file_stats m (fst e)")
  case (Inl err)
  then show ?thesis by (simp add: entry_record_def valid_entry_def)
next
  case (Inr s)
  obtain sz mt where s: "s = (sz, mt)" by (cases s)
  show ?thesis
  proof (cases "cv2_imread m (fst e)")
    case None
    then show ?thesis using Inr s
      by (simp add: entry_record_def valid_entry_def analyze_image_def)
  next
    case (Some img)
    then obtain a where "analyze_image (float_arith m) (cv2_imread m (fst e)) = Inr a"
      using analyze_image_Inr_iff[of "float_arith m" "cv2_imread m (fst e)"] by auto
    then show ?thesis using Inr s Some
      by (simp add: entry_record_def valid_entry_def)
  qed
qed

lemma entry_record_Some:
  assumes "entry_record m root_dir e = Some d"
  shows "root_path d = root_dir" and "path d = snd e"
    and "get_file_stats m (fst e) = Inr (size_bytes d, mtime_ns d)"
    and "bindable d"
proof -
  obtain sz mt a where s: "get_file_stats m (fst e) = Inr (sz, mt)"
    and r: "int64_ok sz" "int64_ok mt"
    and a: "analyze_image (float_arith m) (cv2_imread m (fst e)) = Inr a"
    and d: "d = make_record root_dir (snd e) sz mt a (utc_now m (fst e))"
    using assms
    by (auto simp: entry_record_def split: sum.splits prod.splits if_splits)
  show "root_path d = root_dir" "path d = snd e" by (simp_all add: d make_record_def)
  show "get_file_stats m (fst e) = Inr (size_bytes d, mtime_ns d)"
    by (simp add: s d make_record_def)
  show "bindable d" unfolding d by (rule bindable_make_record[OF r a])
qed

lemma cache_hit_rows_for:
  assumes "rows_for c1 root_dir (snd e) = rows_for c2 root_dir (snd e)"
  shows "cache_hit m c1 root_dir e = cache_hit m c2 root_dir e"
  unfolding cache_hit_def
  by (simp only: get_cached_rows_for_cong[OF assms])

lemma try_entry_stat_fails:
  assumes "get_file_stats m (fst e) = Inl err"
  shows "try_entry m conn root_dir force (fst e) (snd e) = Inl err"
  using assms by (simp add: try_entry_def)

lemma try_entry_hit:
  assumes "\<not> force" and "cache_hit m conn root_dir e"
  shows "try_entry m conn root_dir force (fst e) (snd e) = Inr Cached"
  using assms
  by (auto simp: try_entry_def cache_hit_def Let_def split: sum.splits prod.splits option.splits)

lemma try_entry_record:
  assumes "force \<or> \<not> cache_hit m conn root_dir e" and "entry_record m root_dir e = Some d"
  shows "try_entry m conn root_dir force (fst e) (snd e) = Inr (Analyzed (upsert_store conn d))"
proof -
  obtain sz mt a where s: "get_file_stats m (fst e) = Inr (sz, mt)"
    and r: "int64_ok sz" "int64_ok mt"
    and a: "analyze_image (float_arith m) (cv2_imread m (fst e)) = Inr a"
    and d: "d = make_record root_dir (snd e) sz mt a (utc_now m (fst e))"
    using assms(2)
    by (auto simp: entry_record_def split: sum.splits prod.splits if_splits)
  have u: "upsert_analysis conn d = Inr (upsert_store conn d)"
    by (rule upsert_analysis_bindable(1)[OF entry_record_Some(4)[OF assms(2)]])
  have g: "\<not> force \<Longrightarrow> get_cached_analysis conn root_dir (snd e) sz mt = Inr None"
    using assms(1) s r
    by (auto simp: cache_hit_def get_cached_analysis_def split: option.splits)
  show ?thesis
    using s a u[unfolded d] g
    by (cases force) (simp_all add: try_entry_def Let_def d)
qed

lemma try_entry_no_record:
  assumes "force \<or> \<not> cache_hit m conn root_dir e" and "entry_record m root_dir e = None"
  shows "\<exists>err. try_entry m conn root_dir force (fst e) (snd e) = Inl err"
proof (cases "get_file_stats m (fst e)")
  case (Inl err)
  then show ?thesis using try_entry_stat_fails by blast
next
  case (Inr s)
  obtain sz mt where s: "s = (sz, mt)" by (cases s)
  note st = Inr[unfolded s]
  show ?thesis
  proof (cases "int64_ok sz \<and> int64_ok mt")
    case True
    then have an: "\<exists>err. analyze_image (float_arith m) (cv2_imread m (fst e)) = Inl err"
      using assms(2) st
      by (cases "analyze_image (float_arith m) (cv2_imread m (fst e))")
        (auto simp: entry_record_def)
    have g: "\<not> force \<Longrightarrow> get_cached_analysis conn root_dir (snd e) sz mt = Inr None"
      using assms(1) st True
      by (auto simp: cache_hit_def get_cached_analysis_def split: option.splits)
    show ?thesis using st an g
      by (cases force) (auto simp: try_entry_def Let_def)
  next
    case False
    then have g: "get_cached_analysis conn root_dir (snd e) sz mt = Inl OverflowError"
      by (rule get_cached_out_of_range)
    have nb: "\<not> bindable (make_record root_dir (snd e) sz mt a (utc_now m (fst e)))" for a
      using False by (auto simp: bindable_def make_record_def)
    show ?thesis
    proof (cases force)
      case False
      then show ?thesis using st g by (simp add: try_entry_def Let_def)
    next
      case True
      show ?thesis
      proof (cases "analyze_image (float_arith m) (cv2_imread m (fst e))")
        case (Inl err)
        then show ?thesis using st True by (simp add: try_entry_def Let_def)
      next
        case (Inr a)
        then show ?thesis
          using st True upsert_analysis_unbindable(1)[OF nb[of a], of conn]
          by (simp add: try_entry_def Let_def)
      qed
    qed
  qed
qed

lemma process_entry_eq:
  "process_entry m root_dir force (st, conn, ex) e =
     (if \<not> force \<and> cache_hit m conn root_dir e
      then (st\<lparr>cached := cached st + 1\<rparr>, conn, insert (snd e) ex)
      else (case entry_record m root_dir e of
              Some d \<Rightarrow> (st\<lparr>analyzed := analyzed st + 1\<rparr>, upsert_store conn d,
                         insert (snd e) ex)
            | None \<Rightarrow> (st\<lparr>errors := errors st + 1\<rparr>, conn, insert (snd e) ex)))"
proof -
  have p: "process_entry m root_dir force (st, conn, ex) e =
     (case try_entry m conn root_dir force (fst e) (snd e) of
        Inr Cached \<Rightarrow> (st\<lparr>cached := cached st + 1\<rparr>, conn, insert (snd e) ex)
      | Inr (Analyzed conn') \<Rightarrow> (st\<lparr>analyzed := analyzed st + 1\<rparr>, conn', insert (snd e) ex)
      | Inl err \<Rightarrow> (st\<lparr>errors := errors st + 1\<rparr>, conn, insert (snd e) ex))"
    by (cases e) (auto simp: process_entry_def Let_def split: sum.splits outcome.splits)
  show ?thesis
  proof (cases "\<not> force \<and> cache_hit m conn root_dir e")
    case True
    have t: "try_entry m conn root_dir force (fst e) (snd e) = Inr Cached"
      using True by (intro try_entry_hit) simp_all
    show ?thesis unfolding p t using True by simp
  next
    case False
    then have nh: "force \<or> \<not> cache_hit m conn root_dir e" by blast
    show ?thesis
    proof (cases "entry_record m root_dir e")
      case None
      then obtain err where t: "try_entry m conn root_dir force (fst e) (snd e) = Inl err"
        using try_entry_no_record[OF nh] by blast
      show ?thesis unfolding p t None using False by auto
    next
      case (Some d)
      note t = try_entry_record[OF nh Some]
      show ?thesis unfolding p t Some using False by auto
    qed
  qed
qed

lemma process_entry_cases:
  assumes "process_entry fs root_dir force (st, conn, ex) e = (st1, conn1, ex1)"
  shows "ex1 = insert (snd e) ex"
    and "conn1 = conn \<or>
         (\<exists>d. entry_record fs root_dir e = Some d \<and> conn1 = upsert_store conn d)"
    and "total st1 = total st" and "deleted st1 = deleted st"
    and "analyzed st1 + cached st1 + errors st1 = analyzed st + cached st + errors st + 1"
  using assms unfolding process_entry_eq
  by (auto split: if_splits option.splits)

lemma process_entry_paths:
  assumes "process_entry fs root_dir force (st, conn, ex) e = (st1, conn1, ex1)"
  shows "paths_of conn1 root_dir \<union> ex1 = paths_of conn root_dir \<union> ex1"
proof -
  note c = process_entry_cases(1,2)[OF assms]
  show ?thesis
  proof (cases "conn1 = conn")
    case True
    then show ?thesis by simp
  next
    case False
    then obtain d where d: "entry_record fs root_dir e = Some d" "conn1 = upsert_store conn d"
      using c(2) by blast
    have "paths_of conn1 root_dir = paths_of conn root_dir \<union> {snd e}"
      using entry_record_Some(1,2)[OF d(1)]
      by (simp add: d(2) paths_of_upsert[OF entry_record_Some(4)[OF d(1)]])
    then show ?thesis using c(1) by auto
  qed
qed

lemma process_entry_pk:
  assumes "process_entry fs root_dir force (st, conn, ex) e = (st1, conn1, ex1)"
    and "pk_distinct conn"
  shows "pk_distinct conn1"
  using process_entry_cases(2)[OF assms(1)] assms(2) pk_distinct_upsert by auto

lemma process_entry_frame:
  assumes "process_entry fs root_dir force (st, conn, ex) e = (st1, conn1, ex1)"
    and "pk_distinct conn" and "snd e \<noteq> p \<or> \<not> valid_entry fs e"
  shows "rows_for conn1 root_dir p = rows_for conn root_dir p"
proof (cases "conn1 = conn")
  case True
  then show ?thesis by simp
next
  case False
  then obtain d where d: "entry_record fs root_dir e = Some d" "conn1 = upsert_store conn d"
    using process_entry_cases(2)[OF assms(1)] by blast
  then have "valid_entry fs e" using entry_record_valid[of fs root_dir e] by simp
  then have "snd e \<noteq> p" using assms(3) by blast
  then have "(root_dir, p) \<noteq> (root_path d, path d)"
    using entry_record_Some(2)[OF d(1)] by simp
  then show ?thesis unfolding d(2) by (rule upsert_rows_for_frame[OF assms(2)])
qed

lemma loop_existing_paths:
  "foldl (process_entry fs root_dir force) (st, conn, ex) images = (st', conn', ex') \<Longrightarrow>
   ex' = ex \<union> snd ` set images"
proof (induction images arbitrary: st conn ex)
  case Nil
  then show ?case by simp
next
  case (Cons e es)
  obtain st1 conn1 ex1 where
    s: "process_entry fs root_dir force (st, conn, ex) e = (st1, conn1, ex1)"
    by (cases "process_entry fs root_dir force (st, conn, ex) e") auto
  have "ex' = ex1 \<union> snd ` set es" using Cons.prems s by (intro Cons.IH[of st1 conn1 ex1]) simp
  then show ?case using process_entry_cases(1)[OF s] by auto
qed

lemma loop_stats:
  "foldl (process_entry fs root_dir force) (st, conn, ex) images = (st', conn', ex') \<Longrightarrow>
   total st' = total st \<and> deleted st' = deleted st \<and>
   analyzed st' + cached st' + errors st' =
     analyzed st + cached st + errors st + length images"
proof (induction images arbitrary: st conn ex)
  case Nil
  then show ?case by simp
next
  case (Cons e es)
  obtain st1 conn1 ex1 where
    s: "process_entry fs root_dir force (st, conn, ex) e = (st1, conn1, ex1)"
    by (cases "process_entry fs root_dir force (st, conn, ex) e") auto
  have "total st' = total st1 \<and> deleted st' = deleted st1 \<and>
   analyzed st' + cached st' + errors st' =
     analyzed st1 + cached st1 + errors st1 + length es"
    using Cons.prems s by (intro Cons.IH[of st1 conn1 ex1]) simp
  then show ?case using process_entry_cases(3,4,5)[OF s] by simp
qed

lemma loop_paths:
  "foldl (process_entry fs root_dir force) (st, conn, ex) images = (st', conn', ex') \<Longrightarrow>
   paths_of conn' root_dir \<union> ex' = paths_of conn root_dir \<union> ex'"
proof (induction images arbitrary: st conn ex)
  case Nil
  then show ?case by simp
next
  case (Cons e es)
  obtain st1 conn1 ex1 where
    s: "process_entry fs root_dir force (st, conn, ex) e = (st1, conn1, ex1)"
    by (cases "process_entry fs root_dir force (st, conn, ex) e") auto
  have r: "foldl (process_entry fs root_dir force) (st1, conn1, ex1) es = (st', conn', ex')"
    using Cons.prems s by simp
  have a: "paths_of conn' root_dir \<union> ex' = paths_of conn1 root_dir \<union> ex'"
    by (rule Cons.IH[OF r])
  have b: "ex1 \<subseteq> ex'" using loop_existing_paths[OF r] by blast
  have c: "paths_of conn1 root_dir \<union> ex1 = paths_of conn root_dir \<union> ex1"
    by (rule process_entry_paths[OF s])
  show ?case using a b c by blast
qed

lemma loop_frame:
  "foldl (process_entry fs root_dir force) (st, conn, ex) images = (st', conn', ex') \<Longrightarrow>
   pk_distinct conn \<Longrightarrow>
   pk_distinct conn' \<and>
   ((\<forall>e \<in> set images. snd e = p \<longrightarrow> \<not> valid_entry fs e) \<longrightarrow>
      rows_for conn' root_dir p = rows_for conn root_dir p)"
proof (induction images arbitrary: st conn ex)
  case Nil
  then show ?case by simp
next
  case (Cons e es)
  obtain st1 conn1 ex1 where
    s: "process_entry fs root_dir force (st, conn, ex) e = (st1, conn1, ex1)"
    by (cases "process_entry fs root_dir force (st, conn, ex) e") auto
  have r: "foldl (process_entry fs root_dir force) (st1, conn1, ex1) es = (st', conn', ex')"
    using Cons.prems(1) s by simp
  have pk1: "pk_distinct conn1" by (rule process_entry_pk[OF s Cons.prems(2)])
  note ih = Cons.IH[OF r pk1]
  have "rows_for conn' root_dir p = rows_for conn root_dir p"
    if h: "\<forall>e' \<in> set (e # es). snd e' = p \<longrightarrow> \<not> valid_entry fs e'"
  proof -
    have "rows_for conn1 root_dir p = rows_for conn root_dir p"
      using h by (intro process_entry_frame[OF s Cons.prems(2)]) auto
    moreover have "rows_for conn' root_dir p = rows_for conn1 root_dir p"
      using ih h by simp
    ultimately show ?thesis by simp
  qed
  then show ?case using ih by blast
qed

section \<open>Runs on a store without hits, and repeated runs\<close>

lemma upsert_cache_hit:
  assumes "entry_record fs root_dir e = Some d"
  shows "cache_hit fs (upsert_store conn d) root_dir e"
proof -
  note k = entry_record_Some[OF assms]
  obtain r where "get_cached_analysis (upsert_store conn d) root_dir (snd e)
          (size_bytes d) (mtime_ns d) = Inr (Some r)"
    using upsert_holds_record[OF k(4), of conn] k(1,2) by auto
  then show ?thesis using k(3) by (simp add: cache_hit_def)
qed


lemma loop_frame_unscanned:
  assumes "foldl (process_entry fs root_dir force) (st, conn, ex) images = (st', conn', ex')"
    and "pk_distinct conn" and "p \<notin> snd ` set images"
  shows "rows_for conn' root_dir p = rows_for conn root_dir p"
  using loop_frame[OF assms(1,2), of p] assms(3) by force


lemma loop_settles:
  "foldl (process_entry fs root_dir force) (st, conn, ex) images = (st', conn', ex') \<Longrightarrow>
   pk_distinct conn \<Longrightarrow> distinct (map snd images) \<Longrightarrow>
   \<forall>e \<in> set images. valid_entry fs e \<longrightarrow> cache_hit fs conn' root_dir e"
proof (induction images arbitrary: st conn ex)
  case Nil
  then show ?case by simp
next
  case (Cons e es)
  obtain st1 conn1 ex1 where
    s: "process_entry fs root_dir force (st, conn, ex) e = (st1, conn1, ex1)"
    by (cases "process_entry fs root_dir force (st, conn, ex) e") auto
  have r: "foldl (process_entry fs root_dir force) (st1, conn1, ex1) es = (st', conn', ex')"
    using Cons.prems(1) s by simp
  have pk1: "pk_distinct conn1" by (rule process_entry_pk[OF s Cons.prems(2)])
  have des: "distinct (map snd es)" and ne: "snd e \<notin> snd ` set es"
    using Cons.prems(3) by auto
  note ih = Cons.IH[OF r pk1 des]
  have fr: "rows_for conn' root_dir (snd e) = rows_for conn1 root_dir (snd e)"
    by (rule loop_frame_unscanned[OF r pk1 ne])
  have "cache_hit fs conn' root_dir e" if v: "valid_entry fs e"
  proof -
    obtain d where d: "entry_record fs root_dir e = Some d"
      using v entry_record_valid[of fs root_dir e] by auto
    have "cache_hit fs conn1 root_dir e"
    proof (cases "\<not> force \<and> cache_hit fs conn root_dir e")
      case True
      then have "conn1 = conn" using s unfolding process_entry_eq by simp
      then show ?thesis using True by simp
    next
      case False
      then have "conn1 = upsert_store conn d"
        using s d unfolding process_entry_eq by auto
      then show ?thesis using upsert_cache_hit[OF d] by simp
    qed
    then show ?thesis using cache_hit_rows_for[OF fr] by simp
  qed
  then show ?case using ih by simp
qed

lemma loop_all_settled:
  "foldl (process_entry fs root_dir False) (st, conn, ex) images = (st', conn', ex') \<Longrightarrow>
   \<forall>e \<in> set images. valid_entry fs e \<longrightarrow> cache_hit fs conn root_dir e \<Longrightarrow>
   conn' = conn \<and> analyzed st' = analyzed st \<and>
   cached st' = cached st + length (filter (cache_hit fs conn root_dir) images) \<and>
   errors st' = errors st + length (filter (\<lambda>e. \<not> cache_hit fs conn root_dir e) images)"
proof (induction images arbitrary: st ex)
  case Nil
  then show ?case by simp
next
  case (Cons e es)
  obtain st1 conn1 ex1 where
    s: "process_entry fs root_dir False (st, conn, ex) e = (st1, conn1, ex1)"
    by (cases "process_entry fs root_dir False (st, conn, ex) e") auto
  have nv: "\<not> cache_hit fs conn root_dir e \<Longrightarrow> entry_record fs root_dir e = None"
    using Cons.prems(2) entry_record_valid[of fs root_dir e] by auto
  have c1: "conn1 = conn"
    and st1: "st1 = (if cache_hit fs conn root_dir e then st\<lparr>cached := cached st + 1\<rparr>
                     else st\<lparr>errors := errors st + 1\<rparr>)"
    using s nv unfolding process_entry_eq by (auto split: if_splits)
  have r: "foldl (process_entry fs root_dir False) (st1, conn, ex1) es = (st', conn', ex')"
    using Cons.prems(1) s c1 by simp
  have "\<forall>e \<in> set es. valid_entry fs e \<longrightarrow> cache_hit fs conn root_dir e"
    using Cons.prems(2) by simp
  note ih = Cons.IH[OF r this]
  show ?case using ih st1 by simp
qed

section \<open>Properties of the pipeline\<close>

lemma process_loop_foldl:
  "process_loop m conn root_dir images force = (st', conn', ex') \<Longrightarrow>
   foldl (process_entry m root_dir force)
     (\<lparr>total = length images, analyzed = 0, cached = 0, errors = 0, deleted = 0\<rparr>, conn, {})
     images = (st', conn', ex')"
  by (simp add: process_loop_def)

lemma process_loop_seen:
  assumes "process_loop m conn root_dir images force = (st', conn', ex')"
  shows "ex' = snd ` set images"
  using loop_existing_paths[OF process_loop_foldl[OF assms]] by simp

lemma process_loop_missing:
  assumes "process_loop m conn root_dir images force = (st', conn', ex')"
  shows "paths_of conn' root_dir - snd ` set images = paths_of conn root_dir - snd ` set images"
  using loop_paths[OF process_loop_foldl[OF assms]] process_loop_seen[OF assms] by blast

lemma process_images_empty:
  "process_images m conn root_dir [] force =
     (Inr \<lparr>total = 0, analyzed = 0, cached = 0, errors = 0, deleted = 0\<rparr>, conn)"
  by (simp add: process_images_def)

lemma process_images_fits:
  assumes "images \<noteq> []"
    and "process_loop m conn root_dir images force = (st', conn', ex')"
    and "reconcile_fits (sqlite_max_variables m) conn root_dir (snd ` set images)"
  shows "process_images m conn root_dir images force =
           (Inr (st'\<lparr>deleted := card (paths_of conn' root_dir - snd ` set images)\<rparr>),
            filter (\<lambda>r. \<not> (root_path r = root_dir \<and> path r \<notin> snd ` set images)) conn')"
proof -
  have "reconcile_fits (sqlite_max_variables m) conn' root_dir (snd ` set images)"
    using assms(3) unfolding reconcile_fits_def process_loop_missing[OF assms(2)] .
  note d = delete_missing_files_fits[OF this]
  show ?thesis
    using assms(1) by (simp add: process_images_def assms(2) process_loop_seen[OF assms(2)] d)
qed

lemma process_images_exceeds:
  assumes "images \<noteq> []"
    and "process_loop m conn root_dir images force = (st', conn', ex')"
    and "\<not> reconcile_fits (sqlite_max_variables m) conn root_dir (snd ` set images)"
  shows "process_images m conn root_dir images force = (Inl OperationalError, conn')"
proof -
  have "\<not> reconcile_fits (sqlite_max_variables m) conn' root_dir (snd ` set images)"
    using assms(3) unfolding reconcile_fits_def process_loop_missing[OF assms(2)] .
  note d = delete_missing_files_exceeds[OF this]
  show ?thesis
    using assms(1) by (simp add: process_images_def assms(2) process_loop_seen[OF assms(2)] d)
qed





lemma distinct_snd_same:
  assumes "distinct (map snd images)" and "e \<in> set images" and "e' \<in> set images"
    and "snd e' = snd e"
  shows "e' = e"
proof -
  have "inj_on snd (set images)"
    using assms(1) by (rule distinct_map[THEN iffD1, THEN conjunct2])
  then show ?thesis using assms(2-4) by (auto dest: inj_onD)
qed

lemma process_images_store:
  assumes "images \<noteq> []"
    and "process_loop m conn root_dir images force = (st', conn', ex')"
  shows "snd (process_images m conn root_dir images force) =
           (if reconcile_fits (sqlite_max_variables m) conn root_dir (snd ` set images)
            then filter (\<lambda>r. \<not> (root_path r = root_dir \<and> path r \<notin> snd ` set images)) conn'
            else conn')"
  using process_images_fits[OF assms] process_images_exceeds[OF assms] by simp

lemma process_images_keeps_scanned:
  assumes "process_loop m conn root_dir images force = (st', conn', ex')"
    and "r \<in> set conn'" and "path r \<in> snd ` set images"
  shows "r \<in> set (snd (process_images m conn root_dir images force))"
proof (cases "images = []")
  case True
  then show ?thesis using assms by simp
next
  case False
  show ?thesis using assms(2,3) by (simp add: process_images_store[OF False assms(1)])
qed

lemma process_images_rows_for:
  assumes "process_loop m conn root_dir images force = (st', conn', ex')"
    and "p \<in> snd ` set images"
  shows "rows_for (snd (process_images m conn root_dir images force)) root_dir p =
         rows_for conn' root_dir p"
proof -
  have ne: "images \<noteq> []" using assms(2) by auto
  show ?thesis
    unfolding process_images_store[OF ne assms(1)]
    by (cases "reconcile_fits (sqlite_max_variables m) conn root_dir (snd ` set images)")
      (simp_all only: if_True if_False rows_for_filter_seen[OF assms(2)])
qed

lemma failed_entry_rows_kept:
  assumes "pk_distinct conn" and "distinct (map snd images)"
    and "e \<in> set images" and "\<not> valid_entry m e"
  shows "rows_for (snd (process_images m conn root_dir images force)) root_dir (snd e) =
           rows_for conn root_dir (snd e)"
    and "\<forall>r \<in> set conn. root_path r = root_dir \<and> path r = snd e \<longrightarrow>
            r \<in> set (snd (process_images m conn root_dir images force))"
proof -
  obtain st' conn' ex' where
    l: "process_loop m conn root_dir images force = (st', conn', ex')"
    by (cases "process_loop m conn root_dir images force") auto
  have "\<forall>e' \<in> set images. snd e' = snd e \<longrightarrow> \<not> valid_entry m e'"
    using distinct_snd_same[OF assms(2,3)] assms(4) by blast
  then have "rows_for conn' root_dir (snd e) = rows_for conn root_dir (snd e)"
    using loop_frame[OF process_loop_foldl[OF l] assms(1), of "snd e"] by blast
  moreover have "snd e \<in> snd ` set images" using assms(3) by blast
  ultimately show 3: "rows_for (snd (process_images m conn root_dir images force)) root_dir (snd e) =
           rows_for conn root_dir (snd e)"
    using process_images_rows_for[OF l] by simp
  show "\<forall>r \<in> set conn. root_path r = root_dir \<and> path r = snd e \<longrightarrow>
            r \<in> set (snd (process_images m conn root_dir images force))"
    using rows_for_member[of _ conn root_dir "snd e"]
      rows_for_member[of _ "snd (process_images m conn root_dir images force)" root_dir "snd e"]
    unfolding 3[symmetric] by blast
qed

text \<open>
  C10. The relative path of every scanned entry is in the set of seen paths after the
  loop, whether or not its stat or analysis failed, and the reconciliation keeps every
  row of the loop's store whose path was scanned. With distinct row ids and distinct
  scanned relative paths, the rows stored for a scanned file that cannot be read,
  decoded or stored in this run are after the run exactly what they were before it.
\<close>

theorem failed_entry_keeps_stored_record:
  "snd (snd (process_loop m conn root_dir images force)) = snd ` set images \<and>
   (\<forall>r \<in> set (fst (snd (process_loop m conn root_dir images force))).
      path r \<in> snd ` set images \<longrightarrow>
      r \<in> set (snd (process_images m conn root_dir images force))) \<and>
   (pk_distinct conn \<and> distinct (map snd images) \<and> e \<in> set images \<and> \<not> valid_entry m e \<longrightarrow>
      rows_for (snd (process_images m conn root_dir images force)) root_dir (snd e) =
        rows_for conn root_dir (snd e) \<and>
      (\<forall>r \<in> set conn. root_path r = root_dir \<and> path r = snd e \<longrightarrow>
         r \<in> set (snd (process_images m conn root_dir images force))))"
proof -
  obtain st' conn' ex' where
    l: "process_loop m conn root_dir images force = (st', conn', ex')"
    by (cases "process_loop m conn root_dir images force") auto
  have 1: "snd (snd (process_loop m conn root_dir images force)) = snd ` set images"
    using process_loop_seen[OF l] by (simp add: l)
  have 2: "\<forall>r \<in> set (fst (snd (process_loop m conn root_dir images force))).
      path r \<in> snd ` set images \<longrightarrow>
      r \<in> set (snd (process_images m conn root_dir images force))"
    using process_images_keeps_scanned[OF l] by (simp add: l)
  have 3: "pk_distinct conn \<and> distinct (map snd images) \<and> e \<in> set images \<and>
      \<not> valid_entry m e \<longrightarrow>
      rows_for (snd (process_images m conn root_dir images force)) root_dir (snd e) =
        rows_for conn root_dir (snd e) \<and>
      (\<forall>r \<in> set conn. root_path r = root_dir \<and> path r = snd e \<longrightarrow>
         r \<in> set (snd (process_images m conn root_dir images force)))"
  proof
    assume h: "pk_distinct conn \<and> distinct (map snd images) \<and> e \<in> set images \<and>
      \<not> valid_entry m e"
    note t = failed_entry_rows_kept[OF h[THEN conjunct1] h[THEN conjunct2, THEN conjunct1]
        h[THEN conjunct2, THEN conjunct2, THEN conjunct1]
        h[THEN conjunct2, THEN conjunct2, THEN conjunct2], of root_dir force]
    show "rows_for (snd (process_images m conn root_dir images force)) root_dir (snd e) =
        rows_for conn root_dir (snd e) \<and>
      (\<forall>r \<in> set conn. root_path r = root_dir \<and> path r = snd e \<longrightarrow>
         r \<in> set (snd (process_images m conn root_dir images force)))"
      using t by (intro conjI)
  qed
  show ?thesis using 1 2 3 by (intro conjI)
qed

theorem failed_entry_keeps_stored_record_witness:
  "pk_distinct [row_a, row_bad] \<and> distinct (map snd [entry_a, entry_bad]) \<and>
   entry_bad \<in> set [entry_a, entry_bad] \<and> \<not> valid_entry photos_fs entry_bad \<and>
   rows_for (snd (process_images photos_fs [row_a, row_bad] ''/photos''
                    [entry_a, entry_bad] False)) ''/photos'' ''bad.jpg'' = [row_bad] \<and>
   row_bad \<in> set (snd (process_images photos_fs [row_a, row_bad] ''/photos''
                    [entry_a, entry_bad] False))"
proof -
  have 1: "pk_distinct [row_a, row_bad]"
    by (simp add: pk_distinct_def row_a_def row_bad_def)
  have 2: "distinct (map snd [entry_a, entry_bad])"
    by (simp add: entry_a_def entry_bad_def)
  have 3: "entry_bad \<in> set [entry_a, entry_bad]" by simp
  have 4: "\<not> valid_entry photos_fs entry_bad"
    by (simp add: valid_entry_def photos_fs_def entry_bad_def)
  have s: "snd entry_bad = ''bad.jpg''" by (simp add: entry_bad_def)
  have r: "rows_for [row_a, row_bad] ''/photos'' ''bad.jpg'' = [row_bad]"
    by (simp add: rows_for_def row_a_def row_bad_def)
  have k: "row_bad \<in> set [row_a, row_bad]" "root_path row_bad = ''/photos''"
    "path row_bad = ''bad.jpg''"
    by (simp_all add: row_a_def row_bad_def)
  have h: "pk_distinct [row_a, row_bad] \<and> distinct (map snd [entry_a, entry_bad]) \<and>
      entry_bad \<in> set [entry_a, entry_bad] \<and> \<not> valid_entry photos_fs entry_bad"
    using 1 2 3 4 by (intro conjI)
  note t = failed_entry_keeps_stored_record [where root_dir = "''/photos''" and force = False,
      THEN conjunct2, THEN conjunct2, THEN mp, OF h]
  have 5: "rows_for (snd (process_images photos_fs [row_a, row_bad] ''/photos''
                    [entry_a, entry_bad] False)) ''/photos'' ''bad.jpg'' = [row_bad]"
    using t[THEN conjunct1] unfolding s r .
  have 6: "row_bad \<in> set (snd (process_images photos_fs [row_a, row_bad] ''/photos''
                    [entry_a, entry_bad] False))"
    using t[THEN conjunct2, rule_format, of row_bad] k
    unfolding s by blast
  show ?thesis using 1 2 3 4 5 6 by (intro conjI)
qed

section \<open>Runs with one failing file, and repeated runs\<close>







lemma valid_entry_clock: "valid_entry (m\<lparr>utc_now := t\<rparr>) e = valid_entry m e"
  by (simp add: valid_entry_def split: sum.splits prod.splits)

lemma cache_hit_clock: "cache_hit (m\<lparr>utc_now := t\<rparr>) conn root_dir e = cache_hit m conn root_dir e"
  by (simp add: cache_hit_def)

lemma length_filter_mono:
  "(\<And>x. x \<in> set xs \<Longrightarrow> P x \<Longrightarrow> Q x) \<Longrightarrow> length (filter P xs) \<le> length (filter Q xs)"
  by (induction xs) auto

lemma rerun_settled:
  assumes "pk_distinct conn" and "distinct (map snd images)" and "images \<noteq> []"
    and "fst (process_images m conn root_dir images force) = Inr st1"
    and "kept = snd (process_images m conn root_dir images force)"
  shows "\<forall>e \<in> set images. valid_entry m e \<longrightarrow> cache_hit m kept root_dir e"
    and "paths_of kept root_dir - snd ` set images = {}"
    and "filter (\<lambda>r. \<not> (root_path r = root_dir \<and> path r \<notin> snd ` set images)) kept = kept"
proof -
  obtain st' conn' ex' where
    l: "process_loop m conn root_dir images force = (st', conn', ex')"
    by (cases "process_loop m conn root_dir images force") auto
  have fits: "reconcile_fits (sqlite_max_variables m) conn root_dir (snd ` set images)"
  proof (rule ccontr)
    assume "\<not> reconcile_fits (sqlite_max_variables m) conn root_dir (snd ` set images)"
    then show False using process_images_exceeds[OF assms(3) l] assms(4) by simp
  qed
  have k: "kept = filter (\<lambda>r. \<not> (root_path r = root_dir \<and> path r \<notin> snd ` set images)) conn'"
    unfolding assms(5) process_images_fits[OF assms(3) l fits] by simp
  note settle = loop_settles[OF process_loop_foldl[OF l] assms(1,2)]
  show "\<forall>e \<in> set images. valid_entry m e \<longrightarrow> cache_hit m kept root_dir e"
  proof (intro ballI impI)
    fix e assume e: "e \<in> set images" and v: "valid_entry m e"
    have "cache_hit m conn' root_dir e" using settle e v by blast
    moreover have "rows_for kept root_dir (snd e) = rows_for conn' root_dir (snd e)"
      unfolding k by (rule rows_for_filter_seen) (use e in blast)
    ultimately show "cache_hit m kept root_dir e"
      using cache_hit_rows_for[of kept root_dir e conn' m] by simp
  qed
  show "paths_of kept root_dir - snd ` set images = {}"
    unfolding k paths_of_filter_seen by blast
  show "filter (\<lambda>r. \<not> (root_path r = root_dir \<and> path r \<notin> snd ` set images)) kept = kept"
    unfolding k by (rule filter_seen_idem)
qed

text \<open>
  C2 (amended). With distinct row ids and distinct scanned relative paths, after a first
  run that returned its counts, running the pipeline again without force on an
  unchanged directory (the same scan, the same stat results and the same decodable
  files; only the clock differs) returns counts with analyzed == 0 and
  cached == total - errors, where only files that cannot be read, decoded or stored
  count as errors; so cached == total when every scanned file is valid. The second run
  deletes nothing and leaves the store as the first run left it.
\<close>

theorem rerun_on_unchanged_directory:
  assumes "pk_distinct conn" and "distinct (map snd images)"
    and "run1 = process_images m conn root_dir images force"
    and "fst run1 = Inr st1"
    and "run2 = process_images (m\<lparr>utc_now := later\<rparr>) (snd run1) root_dir images False"
  shows "(\<exists>st2. fst run2 = Inr st2 \<and>
            analyzed st2 = 0 \<and>
            total st2 = length images \<and>
            cached st2 + errors st2 = total st2 \<and>
            errors st2 \<le> length (filter (\<lambda>e. \<not> valid_entry m e) images) \<and>
            ((\<forall>e \<in> set images. valid_entry m e) \<longrightarrow> cached st2 = total st2) \<and>
            deleted st2 = 0) \<and>
         snd run2 = snd run1"
proof (cases "images = []")
  case True
  have "run1 = (Inr \<lparr>total = 0, analyzed = 0, cached = 0, errors = 0, deleted = 0\<rparr>, conn)"
    using True assms(3) by (simp add: process_images_empty)
  moreover have "run2 = (Inr \<lparr>total = 0, analyzed = 0, cached = 0, errors = 0, deleted = 0\<rparr>,
      snd run1)"
    using True assms(5) by (simp add: process_images_empty)
  ultimately show ?thesis using True by simp
next
  case False
  define seen where "seen = snd ` set images"
  define kept where "kept = snd run1"
  note rs = rerun_settled[OF assms(1,2) False assms(4)[unfolded assms(3)]
      kept_def[unfolded assms(3)], folded seen_def]
  have hit: "cache_hit (m\<lparr>utc_now := later\<rparr>) kept root_dir e"
    if e: "e \<in> set images" and v: "valid_entry (m\<lparr>utc_now := later\<rparr>) e" for e
    using rs(1) e v by (simp add: valid_entry_clock cache_hit_clock)
  obtain st2 conn2 ex2 where
    l2: "process_loop (m\<lparr>utc_now := later\<rparr>) kept root_dir images False = (st2, conn2, ex2)"
    by (cases "process_loop (m\<lparr>utc_now := later\<rparr>) kept root_dir images False") auto
  have "\<forall>e \<in> set images. valid_entry (m\<lparr>utc_now := later\<rparr>) e \<longrightarrow>
          cache_hit (m\<lparr>utc_now := later\<rparr>) kept root_dir e"
    using hit by blast
  note a = loop_all_settled[OF process_loop_foldl[OF l2] this]
  note a1 = a[THEN conjunct1] and a2 = a[THEN conjunct2, THEN conjunct1]
    and a3 = a[THEN conjunct2, THEN conjunct2, THEN conjunct1]
    and a4 = a[THEN conjunct2, THEN conjunct2, THEN conjunct2]
  note s = loop_stats[OF process_loop_foldl[OF l2], THEN conjunct1]
  have fits2: "reconcile_fits (sqlite_max_variables (m\<lparr>utc_now := later\<rparr>)) kept root_dir
      (snd ` set images)"
    using rs(2) by (simp add: reconcile_fits_def seen_def)
  have ck: "card (paths_of kept root_dir - snd ` set images) = 0"
    using rs(2) unfolding seen_def by (simp only: card.empty)
  have fk: "filter (\<lambda>r. \<not> (root_path r = root_dir \<and> path r \<notin> snd ` set images)) kept = kept"
    using rs(3) unfolding seen_def .
  have run2: "run2 = (Inr (st2\<lparr>deleted := 0\<rparr>), kept)"
    unfolding assms(5) kept_def[symmetric]
    by (rule process_images_fits[OF False l2 fits2, unfolded a1 ck fk])
  define st where "st = st2\<lparr>deleted := 0\<rparr>"
  have f: "fst run2 = Inr st" by (simp add: run2 st_def)
  have 1: "analyzed st = 0" using a2 by (simp add: st_def)
  have 2: "total st = length images" using s by (simp add: st_def)
  have c: "cached st =
             length (filter (cache_hit (m\<lparr>utc_now := later\<rparr>) kept root_dir) images)"
    using a3 by (simp add: st_def)
  have e: "errors st =
             length (filter (\<lambda>e. \<not> cache_hit (m\<lparr>utc_now := later\<rparr>) kept root_dir e) images)"
    using a4 by (simp add: st_def)
  have 3: "cached st + errors st = total st"
    unfolding c e 2 by (rule sum_length_filter_compl)
  have 4: "errors st \<le> length (filter (\<lambda>e. \<not> valid_entry m e) images)"
    unfolding e
  proof (rule length_filter_mono)
    fix x assume "x \<in> set images" "\<not> cache_hit (m\<lparr>utc_now := later\<rparr>) kept root_dir x"
    then show "\<not> valid_entry m x" using hit[of x] by (auto simp: valid_entry_clock)
  qed
  have 5: "(\<forall>e \<in> set images. valid_entry m e) \<longrightarrow> cached st = total st"
  proof
    assume "\<forall>e \<in> set images. valid_entry m e"
    then have "filter (\<lambda>e. \<not> valid_entry m e) images = []" by (simp add: filter_empty_conv)
    then have "errors st = 0" using 4 by simp
    then show "cached st = total st" using 3 by simp
  qed
  have 6: "deleted st = 0" by (simp add: st_def)
  have 7: "snd run2 = snd run1" by (simp add: run2 kept_def)
  have "\<exists>st2. fst run2 = Inr st2 \<and>
            analyzed st2 = 0 \<and>
            total st2 = length images \<and>
            cached st2 + errors st2 = total st2 \<and>
            errors st2 \<le> length (filter (\<lambda>e. \<not> valid_entry m e) images) \<and>
            ((\<forall>e \<in> set images. valid_entry m e) \<longrightarrow> cached st2 = total st2) \<and>
            deleted st2 = 0"
    using f 1 2 3 4 5 6 by (intro exI[of _ st] conjI)
  then show ?thesis using 7 by (intro conjI)
qed

lemma process_images_returns:
  assumes "reconcile_fits (sqlite_max_variables m) conn root_dir (snd ` set images)"
  shows "\<exists>st. fst (process_images m conn root_dir images force) = Inr st"
proof (cases "images = []")
  case True
  then show ?thesis by (simp add: process_images_empty)
next
  case False
  obtain st' conn' ex' where
    l: "process_loop m conn root_dir images force = (st', conn', ex')"
    by (cases "process_loop m conn root_dir images force") auto
  show ?thesis by (simp add: process_images_fits[OF False l assms])
qed

theorem rerun_on_unchanged_directory_witness:
  "pk_distinct [] \<and> distinct (map snd [entry_a, entry_b]) \<and>
   valid_entry photos_fs entry_a \<and> valid_entry photos_fs entry_b \<and>
   (\<exists>st1. fst (process_images photos_fs [] ''/photos'' [entry_a, entry_b] False) = Inr st1) \<and>
   (\<exists>st2. fst (process_images (photos_fs\<lparr>utc_now := (\<lambda>p. ''2024-01-05T00:00:00+00:00'')\<rparr>)
            (snd (process_images photos_fs [] ''/photos'' [entry_a, entry_b] False))
            ''/photos'' [entry_a, entry_b] False) = Inr st2 \<and>
          analyzed st2 = 0 \<and> cached st2 = 2 \<and> total st2 = 2)"
proof -
  have 1: "pk_distinct []" by (simp add: pk_distinct_def)
  have 2: "distinct (map snd [entry_a, entry_b])"
    by (simp add: entry_a_def entry_b_def)
  have v: "valid_entry photos_fs entry_a" "valid_entry photos_fs entry_b"
    by (simp_all add: valid_entry_def photos_fs_def entry_a_def entry_b_def int64_ok_def)
  have av: "\<forall>e \<in> set [entry_a, entry_b]. valid_entry photos_fs e" using v by simp
  have "reconcile_fits (sqlite_max_variables photos_fs) [] ''/photos''
      (snd ` set [entry_a, entry_b])"
    by (simp add: reconcile_fits_def paths_of_def)
  then obtain st1 where
    s1: "fst (process_images photos_fs [] ''/photos'' [entry_a, entry_b] False) = Inr st1"
    using process_images_returns by blast
  note t = rerun_on_unchanged_directory [where later = "\<lambda>p. ''2024-01-05T00:00:00+00:00''",
      OF 1 2 refl s1 refl, THEN conjunct1]
  then obtain st2 where
    r: "fst (process_images (photos_fs\<lparr>utc_now := (\<lambda>p. ''2024-01-05T00:00:00+00:00'')\<rparr>)
            (snd (process_images photos_fs [] ''/photos'' [entry_a, entry_b] False))
            ''/photos'' [entry_a, entry_b] False) = Inr st2"
      and a: "analyzed st2 = 0" and n: "total st2 = length [entry_a, entry_b]"
      and c: "(\<forall>e \<in> set [entry_a, entry_b]. valid_entry photos_fs e) \<longrightarrow>
              cached st2 = total st2"
    by blast
  have n2: "total st2 = 2" using n by simp
  have c2: "cached st2 = 2" using c av n2 by simp
  have 5: "\<exists>st1. fst (process_images photos_fs [] ''/photos'' [entry_a, entry_b] False) = Inr st1"
    using s1 by blast
  have 6: "\<exists>st2. fst (process_images (photos_fs\<lparr>utc_now := (\<lambda>p. ''2024-01-05T00:00:00+00:00'')\<rparr>)
            (snd (process_images photos_fs [] ''/photos'' [entry_a, entry_b] False))
            ''/photos'' [entry_a, entry_b] False) = Inr st2 \<and>
          analyzed st2 = 0 \<and> cached st2 = 2 \<and> total st2 = 2"
    using r a c2 n2 by blast
  show ?thesis using 1 2 v 5 6 by (intro conjI)
qed

theorem rerun_with_corrupt_image_counterexample:
  "fst (process_images photos_fs [] ''/photos'' [entry_bad] False) =
     Inr \<lparr>total = 1, analyzed = 0, cached = 0, errors = 1, deleted = 0\<rparr> \<and>
   fst (process_images photos_fs
     (snd (process_images photos_fs [] ''/photos'' [entry_bad] False))
     ''/photos'' [entry_bad] False) =
     Inr \<lparr>total = 1, analyzed = 0, cached = 0, errors = 1, deleted = 0\<rparr>"
proof -
  have v: "\<not> valid_entry photos_fs entry_bad"
    by (simp add: valid_entry_def photos_fs_def entry_bad_def)
  have hb: "\<not> cache_hit photos_fs [] ''/photos'' entry_bad"
    by (simp add: cache_hit_def get_cached_analysis_def split: sum.splits prod.splits)
  have eb: "entry_record photos_fs ''/photos'' entry_bad = None"
    using v entry_record_valid[of photos_fs "''/photos''" entry_bad] by simp
  have l: "process_loop photos_fs [] ''/photos'' [entry_bad] False =
             (\<lparr>total = 1, analyzed = 0, cached = 0, errors = 1, deleted = 0\<rparr>, [],
              {snd entry_bad})"
    by (simp add: process_loop_def process_entry_eq hb eb)
  have ne: "[entry_bad] \<noteq> []" by simp
  have p: "paths_of [] ''/photos'' - snd ` set [entry_bad] = {}"
    by (simp add: paths_of_def)
  have fits: "reconcile_fits (sqlite_max_variables photos_fs) [] ''/photos''
      (snd ` set [entry_bad])"
    unfolding reconcile_fits_def p by simp
  have c: "card (paths_of [] ''/photos'' - snd ` set [entry_bad]) = 0"
    by (simp only: p card.empty)
  have run: "process_images photos_fs [] ''/photos'' [entry_bad] False =
               (Inr \<lparr>total = 1, analyzed = 0, cached = 0, errors = 1, deleted = 0\<rparr>, [])"
    unfolding process_images_fits[OF ne l fits, unfolded c] by simp
  show ?thesis unfolding run snd_conv fst_conv run by simp
qed

end
